theory Spec2Isabelle
  imports Main
begin

section \<open>Strings, digits and integers of the host language\<close>

text \<open>
  The module is Python 2: a string is a sequence of bytes, an integer is unbounded.
  The regular-expression class \<^verbatim>\<open>\d\<close> is \<^verbatim>\<open>[0-9]\<close> (no UNICODE or LOCALE flag is
  given), and the class of the host name group is \<^verbatim>\<open>[a-zA-Z0-9_-]\<close>.
\<close>

definition is_digit :: "char \<Rightarrow> bool" where
  "is_digit c \<longleftrightarrow> c \<in> set ''0123456789''"

definition is_host_char :: "char \<Rightarrow> bool" where
  "is_host_char c \<longleftrightarrow>
     c \<in> set ''abcdefghijklmnopqrstuvwxyzABCDEFGHIJKLMNOPQRSTUVWXYZ0123456789_-''"

definition digit_val :: "char \<Rightarrow> nat" where
  "digit_val c = of_char c - 48"

definition digit_char :: "nat \<Rightarrow> char" where
  "digit_char n = ''0123456789'' ! n"

text \<open>
  \<^verbatim>\<open>int(s)\<close> in base ten. The module applies it only to groups that \<^verbatim>\<open>\d\<close> matched,
  which are non-empty strings of digits, so its ValueError cannot arise.
\<close>

definition py_int :: "string \<Rightarrow> int" where
  "py_int s = foldl (\<lambda>a c. 10 * a + int (digit_val c)) 0 s"

text \<open>\<^verbatim>\<open>str(k)\<close> of an integer: the decimal digits, most significant first.\<close>

fun str_nat :: "nat \<Rightarrow> string" where
  "str_nat n = (if n < 10 then [digit_char n] else str_nat (n div 10) @ [digit_char (n mod 10)])"

declare str_nat.simps [simp del]

definition py_str :: "int \<Rightarrow> string" where
  "py_str k = (if k < 0 then CHR ''-'' # str_nat (nat (- k)) else str_nat (nat k))"

text \<open>
  Comparison of two byte strings (\<^verbatim>\<open>a < b\<close>): the first differing byte decides, and a
  proper prefix is smaller.
\<close>

fun str_lt :: "string \<Rightarrow> string \<Rightarrow> bool" where
  "str_lt [] [] = False"
| "str_lt [] (y # ys) = True"
| "str_lt (x # xs) [] = False"
| "str_lt (x # xs) (y # ys) =
     (if x = y then str_lt xs ys else (of_char x :: nat) < of_char y)"

text \<open>
  \<^verbatim>\<open>max(taken)\<close> of a non-empty list: the running maximum starts with the first item and
  is replaced by each later item that is greater.
\<close>

fun max_loop :: "string \<Rightarrow> string list \<Rightarrow> string" where
  "max_loop max_item [] = max_item"
| "max_loop max_item (item # items) =
     max_loop (if str_lt max_item item then item else max_item) items"

text \<open>\<^verbatim>\<open>range(0, n)\<close>: the integers from 0 below n, none when n is not positive.\<close>

definition py_range :: "int \<Rightarrow> int list" where
  "py_range n = map int [0..<nat n]"

section \<open>Regular expressions of the module\<close>

text \<open>
  The regular expression matched against a tag is built by string concatenation,
  \<^verbatim>\<open>hostname + range_pattern(range_start_str)\<close>. Its text consists of the characters of the
  host name, which the pattern's own expression restricts to \<^verbatim>\<open>[a-zA-Z0-9_-]\<close> (none is a
  metacharacter, so each stands for itself), an opening parenthesis, one \<^verbatim>\<open>\d\<close> for every
  character of the range start, and a closing parenthesis. Such an expression is a
  sequence of items each of which consumes exactly one character or marks the group.
\<close>

datatype atom = Lit char | Digit | GroupOpen | GroupClose

definition range_pattern :: "string \<Rightarrow> atom list" where
  "range_pattern range_str = GroupOpen # map (\<lambda>char. Digit) range_str @ [GroupClose]"

definition literal :: "string \<Rightarrow> atom list" where
  "literal s = map Lit s"

text \<open>
  \<^verbatim>\<open>re.match\<close> of such a sequence: anchored at the start of the string only. The result is
  the text of group 1, or None when there is no match. The flag tells whether the group is
  open, the last argument is the text captured so far.
\<close>

fun run :: "atom list \<Rightarrow> string \<Rightarrow> bool \<Rightarrow> string \<Rightarrow> string option" where
  "run [] s open_group g = Some g"
| "run (GroupOpen # as) s open_group g = run as s True []"
| "run (GroupClose # as) s open_group g = run as s False g"
| "run (Lit c # as) [] open_group g = None"
| "run (Lit c # as) (x # xs) open_group g =
     (if x = c then run as xs open_group (if open_group then g @ [x] else g) else None)"
| "run (Digit # as) [] open_group g = None"
| "run (Digit # as) (x # xs) open_group g =
     (if is_digit x then run as xs open_group (if open_group then g @ [x] else g) else None)"

definition re_match :: "atom list \<Rightarrow> string \<Rightarrow> string option" where
  "re_match regex s = run regex s False []"

text \<open>
  The pattern's expression is
  \<^verbatim>\<open>(?P<hostname>[a-zA-Z0-9_-]*)\[(?P<range_start>\d+):(?P<range_end>\d+)\]\<close>, again anchored
  at the start only. Each repetition is greedy, and the character that must follow it is
  outside the repeated class, so giving back characters can never turn a failure into a
  match: the match, when there is one, takes the longest run of the class each time.
  \<open>expect\<close> is a literal character, \<open>many1\<close> is \<^verbatim>\<open>\d+\<close>.
\<close>

record pattern_dict =
  hostname :: string
  range_start :: string
  range_end :: string

definition expect :: "char \<Rightarrow> string \<Rightarrow> string option" where
  "expect c s = (case s of [] \<Rightarrow> None | x # xs \<Rightarrow> if x = c then Some xs else None)"

definition many1 :: "(char \<Rightarrow> bool) \<Rightarrow> string \<Rightarrow> (string \<times> string) option" where
  "many1 P s = (if takeWhile P s = [] then None else Some (takeWhile P s, dropWhile P s))"

definition match_pattern :: "string \<Rightarrow> pattern_dict option" where
  "match_pattern raw_pattern =
     (case expect (CHR ''['') (dropWhile is_host_char raw_pattern) of
        None \<Rightarrow> None
      | Some r1 \<Rightarrow>
     (case many1 is_digit r1 of
        None \<Rightarrow> None
      | Some (start_str, r2) \<Rightarrow>
     (case expect (CHR '':'') r2 of
        None \<Rightarrow> None
      | Some r3 \<Rightarrow>
     (case many1 is_digit r3 of
        None \<Rightarrow> None
      | Some (end_str, r4) \<Rightarrow>
     (case expect (CHR '']'') r4 of
        None \<Rightarrow> None
      | Some r5 \<Rightarrow>
          Some \<lparr>hostname = takeWhile is_host_char raw_pattern,
                range_start = start_str, range_end = end_str\<rparr>)))))"

section \<open>The module's functions\<close>

text \<open>
  \<open>PatternError\<close> is the module's own exception; \<open>AttributeError\<close> is what
  \<^verbatim>\<open>m.group(1)\<close> raises when \<^verbatim>\<open>m\<close> is None.
\<close>

datatype error = PatternError string | AttributeError

definition parse_pattern :: "string \<Rightarrow> error + pattern_dict" where
  "parse_pattern raw_pattern =
     (case match_pattern raw_pattern of
        Some m \<Rightarrow> Inr m
      | None \<Rightarrow> Inl (PatternError (''Invalid pattern: '' @ raw_pattern)))"

definition check_pattern :: "string \<Rightarrow> string \<Rightarrow> 'a \<Rightarrow> error + bool" where
  "check_pattern pattern tag taken =
     (case parse_pattern pattern of
        Inl e \<Rightarrow> Inl e
      | Inr pattern_dict \<Rightarrow>
          (let host = hostname pattern_dict;
               range_start_str = range_start pattern_dict;
               range_start_int = py_int range_start_str;
               range_end_int = py_int (range_end pattern_dict)
           in case re_match (literal host @ range_pattern range_start_str) tag of
                Some g \<Rightarrow>
                  (let current_id = py_int g
                   in Inr (range_start_int \<le> current_id \<and> current_id \<le> range_end_int))
              | None \<Rightarrow> Inr False))"

text \<open>The inner loop of \<open>fresh_names\<close>: zeros are put in front while the suffix is short.\<close>

function pad_loop :: "string \<Rightarrow> string \<Rightarrow> string" where
  "pad_loop suffix range_start_str =
     (if length suffix < length range_start_str
      then pad_loop (CHR ''0'' # suffix) range_start_str else suffix)"
  by pat_completeness auto
termination
  by (relation "measure (\<lambda>(suffix, range_start_str). length range_start_str - length suffix)")
     auto

declare pad_loop.simps [simp del]

text \<open>The outer loop of \<open>fresh_names\<close>, over the list \<^verbatim>\<open>range(0, no_requested)\<close>.\<close>

fun names_loop :: "string \<Rightarrow> string \<Rightarrow> int \<Rightarrow> int list \<Rightarrow> string list \<Rightarrow> string list" where
  "names_loop host range_start_str current_id [] names = names"
| "names_loop host range_start_str current_id (i # is) names =
     names_loop host range_start_str current_id is
       (names @ [host @ pad_loop (py_str (current_id + i)) range_start_str])"

text \<open>
  \<open>taken\<close> is a list of strings: \<^verbatim>\<open>re.match\<close> is applied to its greatest element. The
  test \<^verbatim>\<open>len(taken) > 0\<close> is the case distinction on the list.
\<close>

definition fresh_names :: "string \<Rightarrow> string list \<Rightarrow> int \<Rightarrow> error + string list" where
  "fresh_names pattern taken no_requested =
     (case parse_pattern pattern of
        Inl e \<Rightarrow> Inl e
      | Inr pattern_dict \<Rightarrow>
          (let host = hostname pattern_dict;
               range_start_str = range_start pattern_dict;
               range_start_int = py_int range_start_str;
               range_end_int = py_int (range_end pattern_dict)
           in case (case taken of
                      [] \<Rightarrow> Inr range_start_int
                    | first # others \<Rightarrow>
                        (let max_taken = max_loop first others
                         in case re_match (literal host @ range_pattern range_start_str)
                                   max_taken of
                              None \<Rightarrow> Inl AttributeError
                            | Some g \<Rightarrow> Inr (py_int g + 1))) of
                Inl e \<Rightarrow> Inl e
              | Inr current_id \<Rightarrow>
                  Inr (names_loop host range_start_str current_id
                         (py_range no_requested) [])))"

section \<open>Notions of the specification\<close>

text \<open>
  The descriptor of the specification is the dictionary of the three groups: the prefix is
  the host name group, the width is the length of the range start as written, the bounds
  are the integers of the two range groups.
\<close>

definition width :: "pattern_dict \<Rightarrow> nat" where
  "width d = length (range_start d)"

definition lower :: "pattern_dict \<Rightarrow> int" where
  "lower d = py_int (range_start d)"

definition upper :: "pattern_dict \<Rightarrow> int" where
  "upper d = py_int (range_end d)"

text \<open>A string left-padded with zeros to a length; longer strings stay as they are.\<close>

definition zero_pad :: "nat \<Rightarrow> string \<Rightarrow> string" where
  "zero_pad w s = replicate (w - length s) (CHR ''0'') @ s"

text \<open>The name of an id: the prefix followed by the padded decimal string of the id.\<close>

definition render :: "pattern_dict \<Rightarrow> int \<Rightarrow> string" where
  "render d k = hostname d @ zero_pad (width d) (py_str k)"

text \<open>The numeric id a name carries: the integer written after the prefix.\<close>

definition suffix_id :: "pattern_dict \<Rightarrow> string \<Rightarrow> int" where
  "suffix_id d name = py_int (drop (length (hostname d)) name)"

text \<open>
  A well-formed name is the prefix followed by exactly \<open>width\<close> digits and nothing else;
  a conforming name is a well-formed name with its id within the bounds.
\<close>

definition well_formed :: "pattern_dict \<Rightarrow> string \<Rightarrow> bool" where
  "well_formed d name \<longleftrightarrow>
     take (length (hostname d)) name = hostname d \<and>
     length name = length (hostname d) + width d \<and>
     list_all is_digit (drop (length (hostname d)) name)"

definition conforms :: "pattern_dict \<Rightarrow> string \<Rightarrow> bool" where
  "conforms d name \<longleftrightarrow>
     well_formed d name \<and> lower d \<le> suffix_id d name \<and> suffix_id d name \<le> upper d"

text \<open>The first id to hand out: one above the greatest taken id, or the lower bound.\<close>

definition first_id :: "pattern_dict \<Rightarrow> string list \<Rightarrow> int" where
  "first_id d taken =
     (if taken = [] then lower d else Max (set (map (suffix_id d) taken)) + 1)"

text \<open>
  The grammar of a pattern as a whole string: a prefix of host name characters and, in
  brackets, two unsigned decimal integers separated by a colon.
\<close>

definition pattern_grammar :: "string \<Rightarrow> bool" where
  "pattern_grammar s \<longleftrightarrow>
     (\<exists>pre lo hi. s = pre @ ''['' @ lo @ '':'' @ hi @ '']'' \<and>
        list_all is_host_char pre \<and>
        lo \<noteq> [] \<and> list_all is_digit lo \<and> hi \<noteq> [] \<and> list_all is_digit hi)"

text \<open>
  The id that \<open>check_pattern\<close> and \<open>fresh_names\<close> read from a string:
  \<^verbatim>\<open>int(m.group(1))\<close> of the match, when there is one.
\<close>

definition tag_id :: "pattern_dict \<Rightarrow> string \<Rightarrow> int option" where
  "tag_id d tag =
     map_option py_int (re_match (literal (hostname d) @ range_pattern (range_start d)) tag)"

section \<open>Evaluation on concrete inputs\<close>

lemmas eval_defs =
  parse_pattern_def match_pattern_def expect_def many1_def is_digit_def is_host_char_def
  check_pattern_def fresh_names_def re_match_def literal_def range_pattern_def
  py_int_def digit_val_def py_range_def py_str_def str_nat.simps digit_char_def
  pad_loop.simps tag_id_def

lemmas spec_defs =
  conforms_def well_formed_def width_def lower_def upper_def suffix_id_def first_id_def
  zero_pad_def render_def

section \<open>Digits, decimal strings and their values\<close>

lemma small_nat_cases:
  "n < 10 \<Longrightarrow> n \<in> {0, 1, 2, 3, 4, 5, 6, 7, 8, 9::nat}"
  by auto

lemma digit_val_less: "is_digit c \<Longrightarrow> digit_val c < 10"
  by (auto simp: digit_val_def is_digit_def)

lemma digit_char_digit_val: "is_digit c \<Longrightarrow> digit_char (digit_val c) = c"
  by (auto simp: digit_val_def digit_char_def is_digit_def)

lemma is_digit_digit_char: "n < 10 \<Longrightarrow> is_digit (digit_char n)"
  by (auto simp: is_digit_def digit_char_def dest!: small_nat_cases)

lemma digit_val_digit_char: "n < 10 \<Longrightarrow> digit_val (digit_char n) = n"
  by (auto simp: digit_val_def digit_char_def dest!: small_nat_cases)

lemma of_char_digit: "is_digit c \<Longrightarrow> (of_char c :: nat) = 48 + digit_val c"
  by (auto simp: digit_val_def is_digit_def)

lemma py_int_Nil: "py_int [] = 0"
  by (simp add: py_int_def)

lemma py_int_snoc: "py_int (s @ [c]) = 10 * py_int s + int (digit_val c)"
  by (simp add: py_int_def)

lemma py_int_Cons: "py_int (c # s) = int (digit_val c) * 10 ^ length s + py_int s"
proof (induction s rule: rev_induct)
  case Nil
  show ?case by (simp add: py_int_def)
next
  case (snoc x xs)
  have "py_int (c # xs @ [x]) = 10 * py_int (c # xs) + int (digit_val x)"
    using py_int_snoc [of "c # xs" x] by simp
  then show ?case
    by (simp add: snoc.IH py_int_snoc algebra_simps)
qed

lemma py_int_bounds: "list_all is_digit s \<Longrightarrow> 0 \<le> py_int s \<and> py_int s < 10 ^ length s"
proof (induction s rule: rev_induct)
  case Nil
  show ?case by (simp add: py_int_Nil)
next
  case (snoc x xs)
  then have "digit_val x < 10" and "0 \<le> py_int xs" and "py_int xs < 10 ^ length xs"
    by (simp_all add: digit_val_less)
  then show ?case by (simp add: py_int_snoc)
qed

lemma str_nat_digits: "list_all is_digit (str_nat n)"
proof (induction n rule: str_nat.induct)
  case (1 n)
  show ?case
  proof (cases "n < 10")
    case True
    then show ?thesis by (simp add: str_nat.simps [of n] is_digit_digit_char)
  next
    case False
    with 1 show ?thesis by (simp add: str_nat.simps [of n] is_digit_digit_char)
  qed
qed

lemma py_int_str_nat: "py_int (str_nat n) = int n"
proof (induction n rule: str_nat.induct)
  case (1 n)
  show ?case
  proof (cases "n < 10")
    case True
    then show ?thesis
      using py_int_Cons [of "digit_char n" "[]"]
      by (simp add: str_nat.simps [of n] digit_val_digit_char py_int_Nil)
  next
    case False
    with 1 have "py_int (str_nat (n div 10)) = int (n div 10)" by simp
    with False show ?thesis
      by (simp add: str_nat.simps [of n] py_int_snoc digit_val_digit_char zdiv_int zmod_int)
  qed
qed

lemma length_str_nat_le: "n < 10 ^ w \<Longrightarrow> 0 < w \<Longrightarrow> length (str_nat n) \<le> w"
proof (induction n arbitrary: w rule: str_nat.induct)
  case (1 n)
  show ?case
  proof (cases "n < 10")
    case True
    with 1 show ?thesis by (simp add: str_nat.simps [of n])
  next
    case False
    from 1 obtain v where w: "w = Suc v" by (cases w) auto
    from False 1(2) w have "0 < v" by (cases v) auto
    moreover from 1(2) w have "n div 10 < 10 ^ v"
      by (simp add: less_mult_imp_div_less mult.commute)
    ultimately have "length (str_nat (n div 10)) \<le> v"
      using 1(1) False by simp
    with False w show ?thesis by (simp add: str_nat.simps [of n])
  qed
qed

lemma pad_loop_replicate:
  "pad_loop s r = replicate (length r - length s) (CHR ''0'') @ s"
proof (induction s r rule: pad_loop.induct)
  case (1 suffix range_start_str)
  show ?case
  proof (cases "length suffix < length range_start_str")
    case True
    then have "length range_start_str - length suffix
        = Suc (length range_start_str - length (CHR ''0'' # suffix))" by simp
    with True 1 show ?thesis
      by (simp add: pad_loop.simps [of suffix] replicate_app_Cons_same)
  next
    case False
    then show ?thesis by (simp add: pad_loop.simps [of suffix])
  qed
qed

lemma py_int_zeros: "py_int (replicate k (CHR ''0'') @ s) = py_int s"
  by (induction k) (simp_all add: py_int_Cons digit_val_def)

section \<open>Order of digit strings, matching a tag\<close>

lemma div_base:
  fixes a r m :: int
  shows "0 \<le> r \<Longrightarrow> r < m \<Longrightarrow> (a * m + r) div m = a"
  by (cases "m = 0") (simp_all add: div_pos_pos_trivial)

lemma digits_same_value:
  "length a = length b \<Longrightarrow> list_all is_digit a \<Longrightarrow> list_all is_digit b \<Longrightarrow>
   py_int a = py_int b \<Longrightarrow> a = b"
proof (induction a b rule: list_induct2)
  case Nil
  show ?case by simp
next
  case (Cons x xs y ys)
  let ?m = "(10::int) ^ length xs"
  from Cons.prems have dx: "is_digit x" and dy: "is_digit y"
    and dxs: "list_all is_digit xs" and dys: "list_all is_digit ys" by simp_all
  have bx: "0 \<le> py_int xs" "py_int xs < ?m" using py_int_bounds [OF dxs] by simp_all
  have by': "0 \<le> py_int ys" "py_int ys < ?m"
    using py_int_bounds [OF dys] Cons.hyps by simp_all
  from Cons.prems(3) Cons.hyps
  have eq: "int (digit_val x) * ?m + py_int xs = int (digit_val y) * ?m + py_int ys"
    by (simp add: py_int_Cons)
  have "(int (digit_val x) * ?m + py_int xs) div ?m = int (digit_val x)"
    using bx by (rule div_base)
  moreover have "(int (digit_val y) * ?m + py_int ys) div ?m = int (digit_val y)"
    using by' by (rule div_base)
  ultimately have v: "digit_val x = digit_val y" using eq by (simp only: of_nat_eq_iff)
  with eq have "py_int xs = py_int ys" by simp
  with Cons.IH dxs dys have "xs = ys" by simp
  moreover from v have "x = y"
    using digit_char_digit_val [OF dx] digit_char_digit_val [OF dy] by metis
  ultimately show ?case by simp
qed

lemma str_lt_digits:
  "length a = length b \<Longrightarrow> list_all is_digit a \<Longrightarrow> list_all is_digit b \<Longrightarrow>
   str_lt a b \<longleftrightarrow> py_int a < py_int b"
proof (induction a b rule: list_induct2)
  case Nil
  show ?case by (simp add: py_int_Nil)
next
  case (Cons x xs y ys)
  let ?m = "(10::int) ^ length xs"
  from Cons.prems have dx: "is_digit x" and dy: "is_digit y"
    and dxs: "list_all is_digit xs" and dys: "list_all is_digit ys" by simp_all
  have bx: "0 \<le> py_int xs" "py_int xs < ?m" using py_int_bounds [OF dxs] by simp_all
  have by': "0 \<le> py_int ys" "py_int ys < ?m"
    using py_int_bounds [OF dys] Cons.hyps by simp_all
  have val: "py_int (x # xs) = int (digit_val x) * ?m + py_int xs"
    "py_int (y # ys) = int (digit_val y) * ?m + py_int ys"
    using Cons.hyps by (simp_all add: py_int_Cons)
  show ?case
  proof (cases "x = y")
    case True
    with Cons.IH dxs dys val show ?thesis by simp
  next
    case False
    then have ne: "digit_val x \<noteq> digit_val y"
      using digit_char_digit_val [OF dx] digit_char_digit_val [OF dy] by metis
    have lt: "str_lt (x # xs) (y # ys) \<longleftrightarrow> digit_val x < digit_val y"
      using False by (simp add: of_char_digit [OF dx] of_char_digit [OF dy])
    show ?thesis
    proof (cases "digit_val x < digit_val y")
      case True
      then have "int (digit_val x) + 1 \<le> int (digit_val y)" by simp
      then have "(int (digit_val x) + 1) * ?m \<le> int (digit_val y) * ?m"
        by (rule mult_right_mono) simp
      then have "int (digit_val x) * ?m + py_int xs < int (digit_val y) * ?m + py_int ys"
        using bx by' by (simp add: algebra_simps)
      with True lt val show ?thesis by simp
    next
      case False
      with ne have "int (digit_val y) + 1 \<le> int (digit_val x)" by simp
      then have "(int (digit_val y) + 1) * ?m \<le> int (digit_val x) * ?m"
        by (rule mult_right_mono) simp
      then have "int (digit_val y) * ?m + py_int ys < int (digit_val x) * ?m + py_int xs"
        using bx by' by (simp add: algebra_simps)
      with False lt val show ?thesis by simp
    qed
  qed
qed

lemma str_lt_same_prefix: "str_lt (h @ a) (h @ b) = str_lt a b"
  by (induction h) simp_all

lemma run_literal:
  "run (map Lit h @ as) s False g =
     (if take (length h) s = h then run as (drop (length h) s) False g else None)"
proof (induction h arbitrary: s)
  case Nil
  show ?case by simp
next
  case (Cons c h)
  show ?case
  proof (cases s)
    case Nil
    then show ?thesis by simp
  next
    case (Cons x xs)
    with Cons.IH [of xs] show ?thesis by auto
  qed
qed

lemma run_digits:
  "run (map (\<lambda>char. Digit) r @ as) s True g =
     (if length r \<le> length s \<and> list_all is_digit (take (length r) s)
      then run as (drop (length r) s) True (g @ take (length r) s) else None)"
proof (induction r arbitrary: s g)
  case Nil
  show ?case by simp
next
  case (Cons c r)
  show ?case
  proof (cases s)
    case Nil
    then show ?thesis by simp
  next
    case (Cons x xs)
    with Cons.IH [of xs "g @ [x]"] show ?thesis by auto
  qed
qed

lemma re_match_tag:
  "re_match (literal h @ range_pattern r) s =
     (if take (length h) s = h \<and> length r \<le> length (drop (length h) s) \<and>
         list_all is_digit (take (length r) (drop (length h) s))
      then Some (take (length r) (drop (length h) s)) else None)"
proof -
  have "run (map (\<lambda>char. Digit) r @ [GroupClose]) t True [] =
      (if length r \<le> length t \<and> list_all is_digit (take (length r) t)
       then Some (take (length r) t) else None)" for t
    by (simp add: run_digits)
  then show ?thesis
    by (simp add: re_match_def literal_def range_pattern_def run_literal)
qed

lemma re_match_tag_Some:
  "re_match (literal h @ range_pattern r) s = Some g \<longleftrightarrow>
     (\<exists>rest. s = h @ g @ rest \<and> length g = length r \<and> list_all is_digit g)"
proof
  assume "re_match (literal h @ range_pattern r) s = Some g"
  then have a: "take (length h) s = h" and b: "length r \<le> length (drop (length h) s)"
    and c: "list_all is_digit g" and d: "g = take (length r) (drop (length h) s)"
    by (auto simp: re_match_tag split: if_splits)
  have "s = take (length h) s @ take (length r) (drop (length h) s)
      @ drop (length r) (drop (length h) s)"
    by (simp only: append_take_drop_id)
  with a d have "s = h @ g @ drop (length r) (drop (length h) s)" by simp
  moreover from b d have "length g = length r" by simp
  ultimately show "\<exists>rest. s = h @ g @ rest \<and> length g = length r \<and> list_all is_digit g"
    using c by blast
next
  assume "\<exists>rest. s = h @ g @ rest \<and> length g = length r \<and> list_all is_digit g"
  then obtain rest where "s = h @ g @ rest" "length g = length r" "list_all is_digit g"
    by blast
  then show "re_match (literal h @ range_pattern r) s = Some g"
    by (simp add: re_match_tag)
qed

section \<open>The pattern parser, the greatest taken name, the allocator\<close>

lemma expect_Some: "expect c s = Some r \<longleftrightarrow> s = c # r"
  by (auto simp: expect_def split: list.splits)

lemma many1_Some:
  "many1 P s = Some (g, r) \<Longrightarrow> s = g @ r \<and> g \<noteq> [] \<and> list_all P g"
  by (auto simp: many1_def list_all_iff split: if_splits dest: set_takeWhileD)

lemma span_class:
  "list_all P xs \<Longrightarrow> \<not> P c \<Longrightarrow>
   takeWhile P (xs @ c # ys) = xs \<and> dropWhile P (xs @ c # ys) = c # ys"
  by (induction xs) simp_all

lemma many1_class:
  "list_all P xs \<Longrightarrow> xs \<noteq> [] \<Longrightarrow> \<not> P c \<Longrightarrow> many1 P (xs @ c # ys) = Some (xs, c # ys)"
  by (simp add: many1_def span_class)

lemma not_class:
  "\<not> is_host_char (CHR ''['')" "\<not> is_digit (CHR '':'')" "\<not> is_digit (CHR '']'')"
  by (simp_all add: is_host_char_def is_digit_def)

lemma match_pattern_sound:
  assumes "match_pattern raw = Some d"
  shows "\<exists>rest. raw = hostname d @ ''['' @ range_start d @ '':'' @ range_end d @ '']'' @ rest"
    and "list_all is_host_char (hostname d)"
    and "range_start d \<noteq> []" and "list_all is_digit (range_start d)"
    and "range_end d \<noteq> []" and "list_all is_digit (range_end d)"
proof -
  from assms obtain r1 lo r2 r3 hi r4 r5 where
    e1: "expect (CHR ''['') (dropWhile is_host_char raw) = Some r1" and
    m1: "many1 is_digit r1 = Some (lo, r2)" and
    e2: "expect (CHR '':'') r2 = Some r3" and
    m2: "many1 is_digit r3 = Some (hi, r4)" and
    e3: "expect (CHR '']'') r4 = Some r5" and
    d: "d = \<lparr>hostname = takeWhile is_host_char raw, range_start = lo, range_end = hi\<rparr>"
    by (auto simp: match_pattern_def split: option.splits prod.splits)
  have "raw = takeWhile is_host_char raw @ dropWhile is_host_char raw" by simp
  also have "dropWhile is_host_char raw = CHR ''['' # r1" using e1 by (simp add: expect_Some)
  also have "r1 = lo @ r2" using many1_Some [OF m1] by simp
  also have "r2 = CHR '':'' # r3" using e2 by (simp add: expect_Some)
  also have "r3 = hi @ r4" using many1_Some [OF m2] by simp
  also have "r4 = CHR '']'' # r5" using e3 by (simp add: expect_Some)
  finally have "raw = hostname d @ ''['' @ range_start d @ '':'' @ range_end d @ '']'' @ r5"
    by (simp add: d)
  then show "\<exists>rest. raw = hostname d @ ''['' @ range_start d @ '':'' @ range_end d @ '']'' @ rest"
    by blast
  show "list_all is_host_char (hostname d)"
    by (auto simp: d list_all_iff dest: set_takeWhileD)
  show "range_start d \<noteq> []" "list_all is_digit (range_start d)"
    using many1_Some [OF m1] by (simp_all add: d)
  show "range_end d \<noteq> []" "list_all is_digit (range_end d)"
    using many1_Some [OF m2] by (simp_all add: d)
qed

lemma match_pattern_complete:
  assumes "list_all is_host_char pre"
    and "lo \<noteq> []" and "list_all is_digit lo"
    and "hi \<noteq> []" and "list_all is_digit hi"
  shows "match_pattern (pre @ ''['' @ lo @ '':'' @ hi @ '']'' @ rest)
    = Some \<lparr>hostname = pre, range_start = lo, range_end = hi\<rparr>"
proof -
  have "takeWhile is_host_char (pre @ CHR ''['' # lo @ CHR '':'' # hi @ CHR '']'' # rest) = pre"
    and "dropWhile is_host_char (pre @ CHR ''['' # lo @ CHR '':'' # hi @ CHR '']'' # rest)
      = CHR ''['' # lo @ CHR '':'' # hi @ CHR '']'' # rest"
    using span_class [OF assms(1) not_class(1)] by simp_all
  moreover have "many1 is_digit (lo @ CHR '':'' # hi @ CHR '']'' # rest)
      = Some (lo, CHR '':'' # hi @ CHR '']'' # rest)"
    using assms(2,3) not_class(2) by (simp add: many1_class)
  moreover have "many1 is_digit (hi @ CHR '']'' # rest) = Some (hi, CHR '']'' # rest)"
    using assms(4,5) not_class(3) by (simp add: many1_class)
  ultimately show ?thesis
    by (simp add: match_pattern_def expect_def)
qed

lemma parse_pattern_Inr: "parse_pattern raw = Inr d \<longleftrightarrow> match_pattern raw = Some d"
  by (simp add: parse_pattern_def split: option.splits)

lemma parse_pattern_Inl:
  "parse_pattern raw = Inl e \<longleftrightarrow>
     match_pattern raw = None \<and> e = PatternError (''Invalid pattern: '' @ raw)"
  by (auto simp: parse_pattern_def split: option.splits)

lemma py_int_nonneg: "0 \<le> py_int s"
  by (induction s rule: rev_induct) (simp_all add: py_int_Nil py_int_snoc)

lemma well_formed_split:
  "well_formed d t \<longleftrightarrow>
     (\<exists>ds. t = hostname d @ ds \<and> length ds = width d \<and> list_all is_digit ds)"
proof
  assume w: "well_formed d t"
  have "t = take (length (hostname d)) t @ drop (length (hostname d)) t" by simp
  with w have "t = hostname d @ drop (length (hostname d)) t" by (simp add: well_formed_def)
  moreover from w have "length (drop (length (hostname d)) t) = width d"
    by (simp add: well_formed_def)
  moreover from w have "list_all is_digit (drop (length (hostname d)) t)"
    by (simp add: well_formed_def)
  ultimately show "\<exists>ds. t = hostname d @ ds \<and> length ds = width d \<and> list_all is_digit ds"
    by blast
next
  assume "\<exists>ds. t = hostname d @ ds \<and> length ds = width d \<and> list_all is_digit ds"
  then show "well_formed d t" by (auto simp: well_formed_def)
qed

lemma str_lt_well_formed:
  assumes "well_formed d a" and "well_formed d b"
  shows "str_lt a b \<longleftrightarrow> suffix_id d a < suffix_id d b"
proof -
  from assms obtain x y where a: "a = hostname d @ x" and b: "b = hostname d @ y"
    and l: "length x = width d" "length y = width d"
    and dg: "list_all is_digit x" "list_all is_digit y"
    by (auto simp: well_formed_split)
  from l have "length x = length y" by simp
  then have "str_lt x y \<longleftrightarrow> py_int x < py_int y" using dg by (rule str_lt_digits)
  then show ?thesis by (simp add: a b str_lt_same_prefix suffix_id_def)
qed

lemma max_loop_in: "max_loop m xs \<in> set (m # xs)"
proof (induction xs arbitrary: m)
  case Nil
  show ?case by simp
next
  case (Cons x xs)
  from Cons [of "if str_lt m x then x else m"] show ?case by (auto split: if_splits)
qed

lemma max_loop_ge:
  assumes "\<forall>t\<in>set (m # xs). well_formed d t" and "t \<in> set (m # xs)"
  shows "suffix_id d t \<le> suffix_id d (max_loop m xs)"
  using assms
proof (induction xs arbitrary: m t)
  case Nil
  then show ?case by simp
next
  case (Cons x xs)
  let ?m = "if str_lt m x then x else m"
  have wf: "\<forall>u\<in>set (?m # xs). well_formed d u" using Cons.prems(1) by auto
  have cmp: "str_lt m x \<longleftrightarrow> suffix_id d m < suffix_id d x"
    using Cons.prems(1) by (simp add: str_lt_well_formed)
  have top: "suffix_id d ?m \<le> suffix_id d (max_loop ?m xs)"
    using Cons.IH [OF wf, of ?m] by simp
  show ?case
  proof (cases "t \<in> set xs")
    case True
    then show ?thesis using Cons.IH [OF wf, of t] by simp
  next
    case False
    with Cons.prems(2) have "t = m \<or> t = x" by auto
    then have "suffix_id d t \<le> suffix_id d ?m" using cmp by auto
    with top show ?thesis by simp
  qed
qed

lemma max_loop_Max:
  assumes "\<forall>t\<in>set (m # xs). well_formed d t"
  shows "suffix_id d (max_loop m xs) = Max (set (map (suffix_id d) (m # xs)))"
proof (rule sym, rule Max_eqI)
  show "finite (set (map (suffix_id d) (m # xs)))" by simp
  show "y \<le> suffix_id d (max_loop m xs)" if "y \<in> set (map (suffix_id d) (m # xs))" for y
    using that max_loop_ge [OF assms] by auto
  show "suffix_id d (max_loop m xs) \<in> set (map (suffix_id d) (m # xs))"
    using max_loop_in [of m xs] by (simp only: set_map) (rule imageI)
qed

lemma names_loop_map:
  "names_loop host r cur is names
     = names @ map (\<lambda>i. host @ pad_loop (py_str (cur + i)) r) is"
  by (induction "is" arbitrary: names) simp_all

lemma pad_loop_render: "hostname d @ pad_loop (py_str k) (range_start d) = render d k"
  by (simp add: render_def zero_pad_def width_def pad_loop_replicate)

lemma re_match_well_formed:
  assumes "well_formed d t"
  shows "re_match (literal (hostname d) @ range_pattern (range_start d)) t
    = Some (drop (length (hostname d)) t)"
  using assms by (simp add: re_match_tag well_formed_def width_def)

lemma fresh_names_well_formed:
  assumes "parse_pattern pattern = Inr d" and "\<forall>t\<in>set taken. well_formed d t"
  shows "fresh_names pattern taken n
    = Inr (map (\<lambda>i. render d (first_id d taken + i)) (py_range n))"
proof (cases taken)
  case Nil
  with assms(1) show ?thesis
    by (simp add: fresh_names_def names_loop_map pad_loop_render first_id_def lower_def)
next
  case (Cons first others)
  let ?mx = "max_loop first others"
  have "?mx \<in> set taken" using max_loop_in [of first others] Cons by simp
  with assms(2) have "well_formed d ?mx" by blast
  then have m: "re_match (literal (hostname d) @ range_pattern (range_start d)) ?mx
      = Some (drop (length (hostname d)) ?mx)"
    by (rule re_match_well_formed)
  have "suffix_id d ?mx = Max (set (map (suffix_id d) taken))"
    using max_loop_Max [of first others d] assms(2) Cons by simp
  then have "py_int (drop (length (hostname d)) ?mx) + 1 = first_id d taken"
    using Cons by (simp add: first_id_def suffix_id_def)
  with assms(1) m Cons show ?thesis
    by (simp add: fresh_names_def names_loop_map pad_loop_render)
qed

lemma py_str_nonneg: "0 \<le> k \<Longrightarrow> py_str k = str_nat (nat k)"
  by (simp add: py_str_def)

lemma zero_pad_value: "0 \<le> k \<Longrightarrow> py_int (zero_pad w (py_str k)) = k"
  by (simp add: zero_pad_def py_int_zeros py_str_nonneg py_int_str_nat)

lemma zeros_digits: "list_all is_digit (replicate n (CHR ''0''))"
  by (induction n) (simp_all add: is_digit_def)

lemma zero_pad_digits: "0 \<le> k \<Longrightarrow> list_all is_digit (zero_pad w (py_str k))"
  by (simp add: zero_pad_def py_str_nonneg str_nat_digits zeros_digits)

lemma zero_pad_length: "length s \<le> w \<Longrightarrow> length (zero_pad w s) = w"
  by (simp add: zero_pad_def)

lemma suffix_id_render: "0 \<le> k \<Longrightarrow> suffix_id d (render d k) = k"
  by (simp add: suffix_id_def render_def zero_pad_value)

lemma digits_zero_pad:
  assumes "list_all is_digit g" and "g \<noteq> []"
  shows "length (py_str (py_int g)) \<le> length g"
    and "zero_pad (length g) (py_str (py_int g)) = g"
proof -
  have nn: "0 \<le> py_int g" by (rule py_int_nonneg)
  have "py_int g < 10 ^ length g" using py_int_bounds [OF assms(1)] by simp
  then have "nat (py_int g) < 10 ^ length g" using nn by (simp add: nat_less_iff)
  moreover have "0 < length g" using assms(2) by simp
  ultimately have "length (str_nat (nat (py_int g))) \<le> length g"
    by (rule length_str_nat_le)
  then show le: "length (py_str (py_int g)) \<le> length g"
    using nn by (simp add: py_str_nonneg)
  have len: "length (zero_pad (length g) (py_str (py_int g))) = length g"
    using le by (rule zero_pad_length)
  have dig: "list_all is_digit (zero_pad (length g) (py_str (py_int g)))"
    using nn by (rule zero_pad_digits)
  have val: "py_int (zero_pad (length g) (py_str (py_int g))) = py_int g"
    using nn by (rule zero_pad_value)
  show "zero_pad (length g) (py_str (py_int g)) = g"
    using len dig assms(1) val by (rule digits_same_value)
qed

lemma suffix_id_nonneg: "0 \<le> suffix_id d t"
  by (simp add: suffix_id_def py_int_nonneg)

lemma first_id_nonneg: "0 \<le> first_id d taken"
proof (cases taken)
  case Nil
  then show ?thesis by (simp add: first_id_def lower_def py_int_nonneg)
next
  case (Cons t ts)
  have ne: "taken \<noteq> []" using Cons by simp
  have "suffix_id d t \<le> Max (set (map (suffix_id d) taken))"
    using Cons by (intro Max_ge) simp_all
  with suffix_id_nonneg [of d t] ne show ?thesis by (simp add: first_id_def)
qed

lemma first_id_above: "t \<in> set taken \<Longrightarrow> suffix_id d t < first_id d taken"
proof -
  assume t: "t \<in> set taken"
  then have "suffix_id d t \<le> Max (set (map (suffix_id d) taken))"
    by (intro Max_ge) simp_all
  moreover from t have "taken \<noteq> []" by auto
  ultimately show ?thesis by (simp add: first_id_def)
qed

lemma fresh_names_conforming:
  assumes "parse_pattern pattern = Inr d" and "\<forall>t\<in>set taken. conforms d t"
  shows "fresh_names pattern taken n
    = Inr (map (\<lambda>j. render d (first_id d taken + int j)) [0..<nat n])"
proof -
  from assms(2) have "\<forall>t\<in>set taken. well_formed d t" by (simp add: conforms_def)
  with assms(1) show ?thesis
    by (simp add: fresh_names_well_formed py_range_def comp_def)
qed

lemma render_inj: "0 \<le> a \<Longrightarrow> 0 \<le> b \<Longrightarrow> render d a = render d b \<Longrightarrow> a = b"
  using suffix_id_render by metis

lemma parsed_range_start:
  "parse_pattern pattern = Inr d \<Longrightarrow> range_start d \<noteq> [] \<and> list_all is_digit (range_start d)"
  using match_pattern_sound(3,4) by (simp add: parse_pattern_Inr)

lemma check_pattern_parsed:
  "parse_pattern pattern = Inr d \<Longrightarrow>
   check_pattern pattern tag taken =
     Inr (case tag_id d tag of None \<Rightarrow> False | Some k \<Rightarrow> lower d \<le> k \<and> k \<le> upper d)"
  by (simp add: check_pattern_def tag_id_def lower_def upper_def Let_def split: option.splits)

lemma tag_id_Some:
  assumes "parse_pattern pattern = Inr d"
  shows "tag_id d tag = Some k \<longleftrightarrow>
     0 \<le> k \<and> length (py_str k) \<le> width d \<and>
     (\<exists>rest. tag = hostname d @ zero_pad (width d) (py_str k) @ rest)"
proof
  assume "tag_id d tag = Some k"
  then obtain g where m: "re_match (literal (hostname d) @ range_pattern (range_start d)) tag
      = Some g" and k: "k = py_int g"
    by (auto simp: tag_id_def)
  from m obtain rest where tag: "tag = hostname d @ g @ rest"
    and len: "length g = width d" and dig: "list_all is_digit g"
    by (auto simp: re_match_tag_Some width_def)
  from len parsed_range_start [OF assms] have "g \<noteq> []" by (auto simp: width_def)
  with dig have "length (py_str (py_int g)) \<le> length g"
    and "zero_pad (length g) (py_str (py_int g)) = g"
    by (rule digits_zero_pad)+
  with tag len k show "0 \<le> k \<and> length (py_str k) \<le> width d \<and>
     (\<exists>rest. tag = hostname d @ zero_pad (width d) (py_str k) @ rest)"
    using py_int_nonneg [of g] by auto
next
  assume r: "0 \<le> k \<and> length (py_str k) \<le> width d \<and>
     (\<exists>rest. tag = hostname d @ zero_pad (width d) (py_str k) @ rest)"
  let ?g = "zero_pad (width d) (py_str k)"
  from r obtain rest where tag: "tag = hostname d @ ?g @ rest" by blast
  from r have "length ?g = width d" by (simp add: zero_pad_length)
  moreover from r have "list_all is_digit ?g" by (simp add: zero_pad_digits)
  ultimately have "re_match (literal (hostname d) @ range_pattern (range_start d)) tag
      = Some ?g"
    using tag by (auto simp: re_match_tag_Some width_def)
  with r show "tag_id d tag = Some k" by (simp add: tag_id_def zero_pad_value)
qed

section \<open>The pattern parser\<close>

text \<open>
  C4, as the module behaves. The parser fails, with the module's pattern error carrying
  the message \<^verbatim>\<open>Invalid pattern: \<close> followed by the input, exactly when no leading part of
  the input matches the grammar prefix-then-bracketed-range (a prefix of letters, digits,
  underscore and hyphen, then in brackets two unsigned decimal integers separated by a
  colon). Characters after the closing bracket are not looked at. A pattern without
  brackets such as \<^verbatim>\<open>myhost-01\<close> fails.
\<close>

theorem parse_pattern_fails_iff:
  "((\<exists>e. parse_pattern raw = Inl e) \<longleftrightarrow>
      \<not> (\<exists>head rest. raw = head @ rest \<and> pattern_grammar head))
   \<and> ((\<exists>e. parse_pattern raw = Inl e) \<longleftrightarrow>
      parse_pattern raw = Inl (PatternError (''Invalid pattern: '' @ raw)))
   \<and> parse_pattern ''myhost-01'' = Inl (PatternError ''Invalid pattern: myhost-01'')"
proof -
  have a: "(\<exists>head rest. raw = head @ rest \<and> pattern_grammar head) \<longleftrightarrow>
      (\<exists>d. match_pattern raw = Some d)"
  proof
    assume "\<exists>head rest. raw = head @ rest \<and> pattern_grammar head"
    then obtain pre lo hi rest where "raw = (pre @ ''['' @ lo @ '':'' @ hi @ '']'') @ rest"
      and "list_all is_host_char pre" and "lo \<noteq> []" and "list_all is_digit lo"
      and "hi \<noteq> []" and "list_all is_digit hi"
      by (auto simp: pattern_grammar_def)
    then show "\<exists>d. match_pattern raw = Some d"
      using match_pattern_complete [of pre lo hi rest] by simp
  next
    assume "\<exists>d. match_pattern raw = Some d"
    then obtain d where d: "match_pattern raw = Some d" by blast
    from match_pattern_sound(1) [OF d] obtain rest where
      "raw = (hostname d @ ''['' @ range_start d @ '':'' @ range_end d @ '']'') @ rest"
      by auto
    moreover have "pattern_grammar (hostname d @ ''['' @ range_start d @ '':'' @ range_end d @ '']'')"
      unfolding pattern_grammar_def using match_pattern_sound(2-6) [OF d] by blast
    ultimately show "\<exists>head rest. raw = head @ rest \<and> pattern_grammar head" by blast
  qed
  have b: "(\<exists>e. parse_pattern raw = Inl e) \<longleftrightarrow> match_pattern raw = None"
    by (simp add: parse_pattern_Inl)
  have c: "(\<exists>e. parse_pattern raw = Inl e) \<longleftrightarrow>
      parse_pattern raw = Inl (PatternError (''Invalid pattern: '' @ raw))"
    by (auto simp: parse_pattern_Inl)
  have d: "parse_pattern ''myhost-01'' = Inl (PatternError ''Invalid pattern: myhost-01'')"
    by (simp add: eval_defs)
  from a b have "(\<exists>e. parse_pattern raw = Inl e) \<longleftrightarrow>
      \<not> (\<exists>head rest. raw = head @ rest \<and> pattern_grammar head)"
    by simp
  with c d show ?thesis by blast
qed

text \<open>
  The claim as stated fails on trailing characters: \<^verbatim>\<open>srv[01:02]x\<close> is outside the
  grammar, and the parser accepts it.
\<close>

theorem parse_pattern_trailing_counterexample:
  "parse_pattern ''srv[01:02]x'' =
     Inr \<lparr>hostname = ''srv'', range_start = ''01'', range_end = ''02''\<rparr>
   \<and> \<not> pattern_grammar ''srv[01:02]x''"
proof -
  have "\<not> pattern_grammar ''srv[01:02]x''"
  proof
    assume "pattern_grammar ''srv[01:02]x''"
    then obtain pre lo hi where "''srv[01:02]x'' = pre @ ''['' @ lo @ '':'' @ hi @ '']''"
      unfolding pattern_grammar_def by blast
    then have "last ''srv[01:02]x'' = last (pre @ ''['' @ lo @ '':'' @ hi @ '']'')"
      by (rule arg_cong)
    then show False by simp
  qed
  moreover have "parse_pattern ''srv[01:02]x'' =
     Inr \<lparr>hostname = ''srv'', range_start = ''01'', range_end = ''02''\<rparr>"
    by (simp add: eval_defs)
  ultimately show ?thesis by simp
qed

text \<open>
  C8. For every pattern string of the form prefix[lo:hi] (and whatever follows the closing
  bracket) the parser succeeds, and rendering the parsed prefix followed by the parsed
  lower bound, zero-padded to the parsed width, gives back the prefix followed by the
  lower bound as written. The rendering is the one of the specification and, equally, the
  one of the allocator's padding loop.
\<close>

theorem parse_pattern_roundtrip:
  assumes "list_all is_host_char pre"
    and "lo \<noteq> []" and "list_all is_digit lo"
    and "hi \<noteq> []" and "list_all is_digit hi"
  shows "\<exists>d. parse_pattern (pre @ ''['' @ lo @ '':'' @ hi @ '']'' @ rest) = Inr d \<and>
      render d (lower d) = pre @ lo \<and>
      hostname d @ pad_loop (py_str (py_int (range_start d))) (range_start d) = pre @ lo"
proof -
  let ?d = "\<lparr>hostname = pre, range_start = lo, range_end = hi\<rparr>"
  have p: "parse_pattern (pre @ ''['' @ lo @ '':'' @ hi @ '']'' @ rest) = Inr ?d"
    using match_pattern_complete [OF assms] by (simp add: parse_pattern_Inr)
  have r: "render ?d (lower ?d) = pre @ lo"
    using digits_zero_pad(2) [OF assms(3,2)] by (simp add: render_def lower_def width_def)
  then have "hostname ?d @ pad_loop (py_str (py_int (range_start ?d))) (range_start ?d) = pre @ lo"
    by (simp only: pad_loop_render lower_def)
  with p r show ?thesis by blast
qed

text \<open>
  An instance: \<^verbatim>\<open>node[007:099]\<close> has width 3 and lower bound 7, rendered \<^verbatim>\<open>node007\<close>.
\<close>

theorem parse_pattern_roundtrip_witness:
  "parse_pattern ''node[007:099]'' =
     Inr \<lparr>hostname = ''node'', range_start = ''007'', range_end = ''099''\<rparr>
   \<and> render \<lparr>hostname = ''node'', range_start = ''007'', range_end = ''099''\<rparr> 7 = ''node007''"
proof -
  have "list_all is_host_char ''node''" by (simp add: is_host_char_def)
  moreover have "''007'' \<noteq> []" "list_all is_digit ''007''"
    "''099'' \<noteq> []" "list_all is_digit ''099''"
    by (simp_all add: is_digit_def)
  ultimately obtain d where
    "parse_pattern (''node'' @ ''['' @ ''007'' @ '':'' @ ''099'' @ '']'' @ []) = Inr d"
    and "render d (lower d) = ''node'' @ ''007''"
    using parse_pattern_roundtrip [of "''node''" "''007''" "''099''" "[]"] by blast
  moreover have "parse_pattern ''node[007:099]'' =
     Inr \<lparr>hostname = ''node'', range_start = ''007'', range_end = ''099''\<rparr>"
    by (simp add: eval_defs)
  moreover have "lower \<lparr>hostname = ''node'', range_start = ''007'', range_end = ''099''\<rparr> = 7"
    by (simp add: lower_def py_int_def digit_val_def)
  ultimately show ?thesis by simp
qed

section \<open>The membership test\<close>

text \<open>
  C7. For the pattern \<^verbatim>\<open>web[1:9]\<close> (prefix web, width 1, range 1 to 9) the membership test
  reports a match for the candidate \<^verbatim>\<open>web5\<close>, the id it reads being 5, and reports no match
  for the candidate \<^verbatim>\<open>web05\<close>.
\<close>

theorem check_pattern_web:
  "parse_pattern ''web[1:9]'' = Inr \<lparr>hostname = ''web'', range_start = ''1'', range_end = ''9''\<rparr>
   \<and> check_pattern ''web[1:9]'' ''web5'' taken = Inr True
   \<and> tag_id \<lparr>hostname = ''web'', range_start = ''1'', range_end = ''9''\<rparr> ''web5'' = Some 5
   \<and> check_pattern ''web[1:9]'' ''web05'' taken = Inr False"
  by (simp add: eval_defs)

text \<open>
  C9. The result of the membership test does not depend on its third argument: for every
  pattern, every tag and any two values passed as \<open>taken\<close> the results are equal.
\<close>

theorem check_pattern_ignores_taken:
  "check_pattern pattern tag taken1 = check_pattern pattern tag taken2"
  by (simp add: check_pattern_def)

text \<open>
  C2, as the module behaves. For every valid pattern with prefix, width, lower bound and
  upper bound and for every candidate string, the membership test returns True if and
  only if there is an id k within the bounds whose decimal string has at most width
  characters such that the candidate begins with the prefix followed by the decimal string
  of k zero-padded to width; in every other case (a different prefix, fewer than width
  digits after the prefix, an id outside the bounds) it returns False. Whatever follows
  these width digits is ignored. When it returns True, the id it reads is that k.
\<close>

theorem check_pattern_result:
  assumes "parse_pattern pattern = Inr d"
  shows "check_pattern pattern tag taken =
       Inr (\<exists>k. lower d \<le> k \<and> k \<le> upper d \<and> length (py_str k) \<le> width d \<and>
              (\<exists>rest. tag = hostname d @ zero_pad (width d) (py_str k) @ rest))
     \<and> ((check_pattern pattern tag taken = Inr True \<and> tag_id d tag = Some k) \<longleftrightarrow>
          (lower d \<le> k \<and> k \<le> upper d \<and> length (py_str k) \<le> width d \<and>
           (\<exists>rest. tag = hostname d @ zero_pad (width d) (py_str k) @ rest)))"
proof -
  have lo: "0 \<le> lower d" by (simp add: lower_def py_int_nonneg)
  have id: "tag_id d tag = Some j \<longleftrightarrow>
      0 \<le> j \<and> length (py_str j) \<le> width d \<and>
      (\<exists>rest. tag = hostname d @ zero_pad (width d) (py_str j) @ rest)" for j
    using assms by (rule tag_id_Some)
  have res: "check_pattern pattern tag taken =
      Inr (case tag_id d tag of None \<Rightarrow> False | Some j \<Rightarrow> lower d \<le> j \<and> j \<le> upper d)"
    using assms by (rule check_pattern_parsed)
  have "(case tag_id d tag of None \<Rightarrow> False | Some j \<Rightarrow> lower d \<le> j \<and> j \<le> upper d) \<longleftrightarrow>
      (\<exists>k. lower d \<le> k \<and> k \<le> upper d \<and> length (py_str k) \<le> width d \<and>
         (\<exists>rest. tag = hostname d @ zero_pad (width d) (py_str k) @ rest))"
  proof (cases "tag_id d tag")
    case None
    have "\<not> (\<exists>k. lower d \<le> k \<and> k \<le> upper d \<and> length (py_str k) \<le> width d \<and>
         (\<exists>rest. tag = hostname d @ zero_pad (width d) (py_str k) @ rest))"
    proof
      assume "\<exists>k. lower d \<le> k \<and> k \<le> upper d \<and> length (py_str k) \<le> width d \<and>
         (\<exists>rest. tag = hostname d @ zero_pad (width d) (py_str k) @ rest)"
      then obtain k where "lower d \<le> k" and "length (py_str k) \<le> width d"
        and "\<exists>rest. tag = hostname d @ zero_pad (width d) (py_str k) @ rest" by blast
      with lo have "tag_id d tag = Some k" by (simp add: id)
      with None show False by simp
    qed
    with None show ?thesis by simp
  next
    case (Some j)
    show ?thesis
    proof
      assume "case tag_id d tag of None \<Rightarrow> False | Some j \<Rightarrow> lower d \<le> j \<and> j \<le> upper d"
      with Some have "lower d \<le> j \<and> j \<le> upper d" by simp
      moreover from Some have "length (py_str j) \<le> width d \<and>
          (\<exists>rest. tag = hostname d @ zero_pad (width d) (py_str j) @ rest)"
        by (simp add: id)
      ultimately show "\<exists>k. lower d \<le> k \<and> k \<le> upper d \<and> length (py_str k) \<le> width d \<and>
         (\<exists>rest. tag = hostname d @ zero_pad (width d) (py_str k) @ rest)" by blast
    next
      assume "\<exists>k. lower d \<le> k \<and> k \<le> upper d \<and> length (py_str k) \<le> width d \<and>
         (\<exists>rest. tag = hostname d @ zero_pad (width d) (py_str k) @ rest)"
      then obtain k where k: "lower d \<le> k" "k \<le> upper d" and "length (py_str k) \<le> width d"
        and "\<exists>rest. tag = hostname d @ zero_pad (width d) (py_str k) @ rest" by blast
      with lo have "tag_id d tag = Some k" by (simp add: id)
      with Some k show "case tag_id d tag of None \<Rightarrow> False | Some j \<Rightarrow> lower d \<le> j \<and> j \<le> upper d"
        by simp
    qed
  qed
  with res have first: "check_pattern pattern tag taken =
       Inr (\<exists>k. lower d \<le> k \<and> k \<le> upper d \<and> length (py_str k) \<le> width d \<and>
              (\<exists>rest. tag = hostname d @ zero_pad (width d) (py_str k) @ rest))"
    by simp
  have second: "(check_pattern pattern tag taken = Inr True \<and> tag_id d tag = Some k) \<longleftrightarrow>
          (lower d \<le> k \<and> k \<le> upper d \<and> length (py_str k) \<le> width d \<and>
           (\<exists>rest. tag = hostname d @ zero_pad (width d) (py_str k) @ rest))"
    using lo id [of k] by (auto simp: res)
  from first second show ?thesis by (rule conjI)
qed

text \<open>
  Two instances: \<^verbatim>\<open>web5x\<close> is a match of \<^verbatim>\<open>web[1:9]\<close> with id 5, and \<^verbatim>\<open>wex5\<close>, which has
  another prefix, is no match.
\<close>

theorem check_pattern_result_witness:
  "parse_pattern ''web[1:9]'' = Inr \<lparr>hostname = ''web'', range_start = ''1'', range_end = ''9''\<rparr>
   \<and> check_pattern ''web[1:9]'' ''web5x'' () = Inr True
   \<and> (\<exists>rest. ''web5x'' = ''web'' @ zero_pad 1 (py_str 5) @ rest)
   \<and> check_pattern ''web[1:9]'' ''wex5'' () = Inr False
   \<and> \<not> (\<exists>k. 1 \<le> k \<and> k \<le> 9 \<and> length (py_str k) \<le> 1 \<and>
           (\<exists>rest. ''wex5'' = ''web'' @ zero_pad 1 (py_str k) @ rest))"
proof -
  let ?d = "\<lparr>hostname = ''web'', range_start = ''1'', range_end = ''9''\<rparr>"
  have p: "parse_pattern ''web[1:9]'' = Inr ?d" by (simp add: eval_defs)
  have v: "lower ?d = 1" "upper ?d = 9" "width ?d = 1" "hostname ?d = ''web''"
    by (simp_all add: lower_def upper_def width_def py_int_def digit_val_def)
  have t: "check_pattern ''web[1:9]'' ''web5x'' () = Inr True \<and> tag_id ?d ''web5x'' = Some 5"
    by (simp add: eval_defs)
  then have a: "\<exists>rest. ''web5x'' = hostname ?d @ zero_pad (width ?d) (py_str 5) @ rest"
    using check_pattern_result [OF p, of "''web5x''" "()" 5] by blast
  have f: "check_pattern ''web[1:9]'' ''wex5'' () = Inr False" by (simp add: eval_defs)
  have "check_pattern ''web[1:9]'' ''wex5'' () =
       Inr (\<exists>k. lower ?d \<le> k \<and> k \<le> upper ?d \<and> length (py_str k) \<le> width ?d \<and>
              (\<exists>rest. ''wex5'' = hostname ?d @ zero_pad (width ?d) (py_str k) @ rest))"
    using check_pattern_result [OF p, of "''wex5''" "()" 0] by (rule conjunct1)
  with f have b: "\<not> (\<exists>k. lower ?d \<le> k \<and> k \<le> upper ?d \<and> length (py_str k) \<le> width ?d \<and>
              (\<exists>rest. ''wex5'' = hostname ?d @ zero_pad (width ?d) (py_str k) @ rest))"
    by simp
  from a have a': "\<exists>rest. ''web5x'' = ''web'' @ zero_pad 1 (py_str 5) @ rest"
    unfolding v .
  from b have b': "\<not> (\<exists>k. 1 \<le> k \<and> k \<le> 9 \<and> length (py_str k) \<le> 1 \<and>
           (\<exists>rest. ''wex5'' = ''web'' @ zero_pad 1 (py_str k) @ rest))"
    unfolding v .
  from p t f a' b' show ?thesis by blast
qed

text \<open>
  The claim as stated fails in both directions. The candidate \<^verbatim>\<open>web5x\<close> is a match of
  \<^verbatim>\<open>web[1:9]\<close> with id 5 and is not the prefix followed by the padded 5. The candidate
  \<^verbatim>\<open>web12\<close> is the prefix followed by 12 padded to width 1, with 12 within the bounds of
  \<^verbatim>\<open>web[1:99]\<close>, and the id read from it is 1.
\<close>

theorem check_pattern_trailing_counterexample:
  "parse_pattern ''web[1:9]'' = Inr \<lparr>hostname = ''web'', range_start = ''1'', range_end = ''9''\<rparr>
   \<and> check_pattern ''web[1:9]'' ''web5x'' () = Inr True
   \<and> tag_id \<lparr>hostname = ''web'', range_start = ''1'', range_end = ''9''\<rparr> ''web5x'' = Some 5
   \<and> ''web5x'' \<noteq> ''web'' @ zero_pad 1 (py_str 5)
   \<and> parse_pattern ''web[1:99]'' = Inr \<lparr>hostname = ''web'', range_start = ''1'', range_end = ''99''\<rparr>
   \<and> ''web12'' = ''web'' @ zero_pad 1 (py_str 12)
   \<and> tag_id \<lparr>hostname = ''web'', range_start = ''1'', range_end = ''99''\<rparr> ''web12'' = Some 1"
  by (simp add: eval_defs zero_pad_def)

section \<open>The allocator\<close>

text \<open>
  C3. For every valid pattern, every list of taken names each of which conforms to the
  pattern, and every count that is not negative, the allocator returns exactly count
  names. The first id is one above the greatest taken id when there are taken names, and
  the lower bound when there are none; the i-th name is the prefix followed by the decimal
  string of the first id plus i, left-padded with zeros to the width.
\<close>

theorem fresh_names_sequence:
  assumes "parse_pattern pattern = Inr d"
    and "\<forall>t\<in>set taken. conforms d t"
    and "0 \<le> count"
  shows "\<exists>names. fresh_names pattern taken count = Inr names \<and>
      length names = nat count \<and>
      (\<forall>i<nat count. names ! i =
         hostname d @ zero_pad (width d) (py_str (first_id d taken + int i)))"
  using fresh_names_conforming [OF assms(1,2), of count] by (simp add: render_def)

text \<open>
  An instance: \<^verbatim>\<open>host[01:05]\<close> with \<^verbatim>\<open>host01\<close> and \<^verbatim>\<open>host02\<close> taken, two names asked.
\<close>

theorem fresh_names_sequence_witness:
  "parse_pattern ''host[01:05]'' =
     Inr \<lparr>hostname = ''host'', range_start = ''01'', range_end = ''05''\<rparr>
   \<and> conforms \<lparr>hostname = ''host'', range_start = ''01'', range_end = ''05''\<rparr> ''host01''
   \<and> conforms \<lparr>hostname = ''host'', range_start = ''01'', range_end = ''05''\<rparr> ''host02''
   \<and> (\<exists>names. fresh_names ''host[01:05]'' [''host01'', ''host02''] 2 = Inr names \<and>
        length names = 2 \<and> names ! 0 = ''host03'' \<and> names ! 1 = ''host04'')"
proof -
  let ?d = "\<lparr>hostname = ''host'', range_start = ''01'', range_end = ''05''\<rparr>"
  let ?taken = "[''host01'', ''host02'']"
  have p: "parse_pattern ''host[01:05]'' = Inr ?d" by (simp add: eval_defs)
  have c1: "conforms ?d ''host01''" and c2: "conforms ?d ''host02''"
    by (simp_all add: spec_defs eval_defs)
  then have c: "\<forall>t\<in>set ?taken. conforms ?d t" by simp
  have f: "first_id ?d ?taken = 3" by (simp add: spec_defs eval_defs)
  from fresh_names_sequence [OF p c, of 2] obtain names where
    r: "fresh_names ''host[01:05]'' ?taken 2 = Inr names" and l: "length names = nat 2"
    and n: "\<forall>i<nat 2. names ! i = hostname ?d @ zero_pad (width ?d) (py_str (first_id ?d ?taken + int i))"
    by auto
  from n have "names ! 0 = hostname ?d @ zero_pad (width ?d) (py_str (first_id ?d ?taken + int 0))"
    and "names ! 1 = hostname ?d @ zero_pad (width ?d) (py_str (first_id ?d ?taken + int 1))"
    by simp_all
  then have "names ! 0 = ''host03''" and "names ! 1 = ''host04''"
    by (simp_all add: f) (simp_all add: spec_defs eval_defs)
  with p c1 c2 r l show ?thesis by simp
qed

text \<open>
  C5. For every valid pattern, every non-empty list of conforming taken names and every
  count that is not negative, the returned names are pairwise distinct strings, and none
  of them carries a numeric id that a taken name carries.
\<close>

theorem fresh_names_fresh:
  assumes "parse_pattern pattern = Inr d"
    and "taken \<noteq> []"
    and "\<forall>t\<in>set taken. conforms d t"
    and "0 \<le> count"
  shows "\<exists>names. fresh_names pattern taken count = Inr names \<and>
      distinct names \<and>
      (\<forall>name\<in>set names. suffix_id d name \<notin> set (map (suffix_id d) taken))"
proof -
  let ?f = "first_id d taken"
  let ?names = "map (\<lambda>j. render d (?f + int j)) [0..<nat count]"
  have f0: "0 \<le> ?f" by (rule first_id_nonneg)
  have run: "fresh_names pattern taken count = Inr ?names"
    using assms(1,3) by (rule fresh_names_conforming)
  have "inj_on (\<lambda>j. render d (?f + int j)) (set [0..<nat count])"
  proof (rule inj_onI)
    fix i j assume "render d (?f + int i) = render d (?f + int j)"
    moreover have "0 \<le> ?f + int i" "0 \<le> ?f + int j" using f0 by simp_all
    ultimately have "?f + int i = ?f + int j" using render_inj by blast
    then show "i = j" by simp
  qed
  then have dist: "distinct ?names" by (simp add: distinct_map)
  have new: "suffix_id d name \<notin> set (map (suffix_id d) taken)" if "name \<in> set ?names" for name
  proof
    assume "suffix_id d name \<in> set (map (suffix_id d) taken)"
    then obtain t where t: "t \<in> set taken" and eq: "suffix_id d name = suffix_id d t" by auto
    from that obtain j where "name = render d (?f + int j)" by auto
    then have "suffix_id d name = ?f + int j" using f0 by (simp add: suffix_id_render)
    with eq first_id_above [OF t, of d] show False by simp
  qed
  from run dist new show ?thesis by blast
qed

text \<open>
  An instance: \<^verbatim>\<open>node[000:010]\<close> with \<^verbatim>\<open>node003\<close> and \<^verbatim>\<open>node001\<close> taken.
\<close>

theorem fresh_names_fresh_witness:
  "parse_pattern ''node[000:010]'' =
     Inr \<lparr>hostname = ''node'', range_start = ''000'', range_end = ''010''\<rparr>
   \<and> conforms \<lparr>hostname = ''node'', range_start = ''000'', range_end = ''010''\<rparr> ''node003''
   \<and> conforms \<lparr>hostname = ''node'', range_start = ''000'', range_end = ''010''\<rparr> ''node001''
   \<and> fresh_names ''node[000:010]'' [''node003'', ''node001''] 2 = Inr [''node004'', ''node005'']
   \<and> (\<exists>names. fresh_names ''node[000:010]'' [''node003'', ''node001''] 2 = Inr names \<and>
        distinct names)"
proof -
  let ?d = "\<lparr>hostname = ''node'', range_start = ''000'', range_end = ''010''\<rparr>"
  let ?taken = "[''node003'', ''node001'']"
  have p: "parse_pattern ''node[000:010]'' = Inr ?d" by (simp add: eval_defs)
  have c1: "conforms ?d ''node003''" and c2: "conforms ?d ''node001''"
    by (simp_all add: spec_defs eval_defs)
  then have c: "\<forall>t\<in>set ?taken. conforms ?d t" by simp
  have ne: "?taken \<noteq> []" by simp
  have e: "fresh_names ''node[000:010]'' ?taken 2 = Inr [''node004'', ''node005'']"
    by (simp add: eval_defs upt_rec)
  from fresh_names_fresh [OF p ne c, of 2] obtain names where
    "fresh_names ''node[000:010]'' ?taken 2 = Inr names" and "distinct names"
    by auto
  with p c1 c2 e show ?thesis by blast
qed

text \<open>
  C6. For every valid pattern, every list of conforming taken names and every count that
  is not negative, the ids of the returned names are consecutive: each is exactly one
  greater than the id before it.
\<close>

theorem fresh_names_consecutive:
  assumes "parse_pattern pattern = Inr d"
    and "\<forall>t\<in>set taken. conforms d t"
    and "0 \<le> count"
  shows "\<exists>names. fresh_names pattern taken count = Inr names \<and>
      (\<forall>i. Suc i < length names \<longrightarrow>
         suffix_id d (names ! Suc i) = suffix_id d (names ! i) + 1)"
proof -
  have "0 \<le> first_id d taken" by (rule first_id_nonneg)
  then show ?thesis
    using fresh_names_conforming [OF assms(1,2), of count]
    by (simp add: suffix_id_render)
qed

text \<open>
  An instance: \<^verbatim>\<open>node[000:010]\<close> with nothing taken, three names asked.
\<close>

theorem fresh_names_consecutive_witness:
  "parse_pattern ''node[000:010]'' =
     Inr \<lparr>hostname = ''node'', range_start = ''000'', range_end = ''010''\<rparr>
   \<and> fresh_names ''node[000:010]'' [] 3 = Inr [''node000'', ''node001'', ''node002'']
   \<and> suffix_id \<lparr>hostname = ''node'', range_start = ''000'', range_end = ''010''\<rparr>
        ([''node000'', ''node001'', ''node002''] ! 1)
     = suffix_id \<lparr>hostname = ''node'', range_start = ''000'', range_end = ''010''\<rparr>
        ([''node000'', ''node001'', ''node002''] ! 0) + 1"
proof -
  let ?d = "\<lparr>hostname = ''node'', range_start = ''000'', range_end = ''010''\<rparr>"
  have p: "parse_pattern ''node[000:010]'' = Inr ?d" by (simp add: eval_defs)
  have c: "\<forall>t\<in>set []. conforms ?d t" by simp
  have e: "fresh_names ''node[000:010]'' [] 3 = Inr [''node000'', ''node001'', ''node002'']"
    by (simp add: eval_defs upt_rec)
  from fresh_names_consecutive [OF p c, of 3] obtain names where
    r: "fresh_names ''node[000:010]'' [] 3 = Inr names"
    and s: "\<forall>i. Suc i < length names \<longrightarrow> suffix_id ?d (names ! Suc i) = suffix_id ?d (names ! i) + 1"
    by auto
  from r e have "names = [''node000'', ''node001'', ''node002'']" by simp
  with s [rule_format, of 0]
  have "suffix_id ?d ([''node000'', ''node001'', ''node002''] ! Suc 0)
      = suffix_id ?d ([''node000'', ''node001'', ''node002''] ! 0) + 1"
    by simp
  with p e show ?thesis by simp
qed

text \<open>
  C1, as the module behaves. The allocator has no capacity check. For every valid
  pattern, every list of conforming taken names and every positive count such that the
  last id to hand out is strictly greater than the upper bound, it still returns all
  count names, and the last of them carries an id above the upper bound.
\<close>

theorem fresh_names_beyond_upper:
  assumes "parse_pattern pattern = Inr d"
    and "\<forall>t\<in>set taken. conforms d t"
    and "0 < count"
    and "upper d < first_id d taken + count - 1"
  shows "\<exists>names. fresh_names pattern taken count = Inr names \<and>
      length names = nat count \<and>
      last names = render d (first_id d taken + count - 1) \<and>
      upper d < suffix_id d (last names)"
proof -
  let ?f = "first_id d taken"
  let ?names = "map (\<lambda>j. render d (?f + int j)) [0..<nat count]"
  have f0: "0 \<le> ?f" by (rule first_id_nonneg)
  have run: "fresh_names pattern taken count = Inr ?names"
    using assms(1,2) by (rule fresh_names_conforming)
  from assms(3) obtain m where m: "nat count = Suc m" by (cases "nat count") auto
  then have c: "count = int m + 1" using assms(3) by linarith
  have "[0..<nat count] = [0..<m] @ [m]" using m by simp
  then have l: "last ?names = render d (?f + count - 1)"
    by (simp add: c)
  moreover have "suffix_id d (render d (?f + count - 1)) = ?f + count - 1"
    using f0 assms(3) by (simp add: suffix_id_render)
  ultimately show ?thesis using run assms(4) by simp
qed

text \<open>
  An instance: \<^verbatim>\<open>srv[01:02]\<close> with both ids taken, one name asked.
\<close>

theorem fresh_names_beyond_upper_witness:
  "parse_pattern ''srv[01:02]'' =
     Inr \<lparr>hostname = ''srv'', range_start = ''01'', range_end = ''02''\<rparr>
   \<and> conforms \<lparr>hostname = ''srv'', range_start = ''01'', range_end = ''02''\<rparr> ''srv01''
   \<and> conforms \<lparr>hostname = ''srv'', range_start = ''01'', range_end = ''02''\<rparr> ''srv02''
   \<and> (\<exists>names. fresh_names ''srv[01:02]'' [''srv01'', ''srv02''] 1 = Inr names \<and>
        length names = 1 \<and> last names = ''srv03'')"
proof -
  let ?d = "\<lparr>hostname = ''srv'', range_start = ''01'', range_end = ''02''\<rparr>"
  let ?taken = "[''srv01'', ''srv02'']"
  have p: "parse_pattern ''srv[01:02]'' = Inr ?d" by (simp add: eval_defs)
  have c1: "conforms ?d ''srv01''" and c2: "conforms ?d ''srv02''"
    by (simp_all add: spec_defs eval_defs)
  then have c: "\<forall>t\<in>set ?taken. conforms ?d t" by simp
  have f: "first_id ?d ?taken = 3" by (simp add: spec_defs eval_defs)
  have u: "upper ?d < first_id ?d ?taken + 1 - 1" by (simp add: f) (simp add: spec_defs eval_defs)
  have pos: "(0::int) < 1" by simp
  from fresh_names_beyond_upper [OF p c pos u] obtain names where
    r: "fresh_names ''srv[01:02]'' ?taken 1 = Inr names" and l: "length names = nat 1"
    and n: "last names = render ?d (first_id ?d ?taken + 1 - 1)"
    by auto
  from n have "last names = ''srv03''" by (simp add: f) (simp add: spec_defs eval_defs)
  with p c1 c2 r l show ?thesis by simp
qed

text \<open>
  The claim as stated fails there: the upper bound is 2, and the allocator returns the
  name of id 3 instead of failing.
\<close>

theorem fresh_names_capacity_counterexample:
  "parse_pattern ''srv[01:02]'' =
     Inr \<lparr>hostname = ''srv'', range_start = ''01'', range_end = ''02''\<rparr>
   \<and> upper \<lparr>hostname = ''srv'', range_start = ''01'', range_end = ''02''\<rparr> = 2
   \<and> fresh_names ''srv[01:02]'' [''srv01'', ''srv02''] 1 = Inr [''srv03'']"
  by (simp add: eval_defs upper_def)

text \<open>
  C10. For every valid pattern and every non-empty list of taken names, when the greatest
  taken name does not begin with the prefix followed by width decimal digits, the
  allocator fails with the attribute error of \<^verbatim>\<open>m.group(1)\<close> on a match that is None,
  whatever the count.
\<close>

theorem fresh_names_attribute_error:
  assumes "parse_pattern pattern = Inr d"
    and "\<not> (\<exists>g rest. max_loop first others = hostname d @ g @ rest \<and>
            length g = width d \<and> list_all is_digit g)"
  shows "fresh_names pattern (first # others) count = Inl AttributeError"
proof -
  have "re_match (literal (hostname d) @ range_pattern (range_start d))
      (max_loop first others) = None"
  proof (cases "re_match (literal (hostname d) @ range_pattern (range_start d))
      (max_loop first others)")
    case None
    then show ?thesis .
  next
    case (Some g)
    then have "\<exists>rest. max_loop first others = hostname d @ g @ rest \<and>
        length g = width d \<and> list_all is_digit g"
      by (simp add: re_match_tag_Some width_def)
    with assms(2) show ?thesis by blast
  qed
  with assms(1) show ?thesis by (simp add: fresh_names_def)
qed

text \<open>
  An instance: of \<^verbatim>\<open>web1\<close> and \<^verbatim>\<open>webx\<close> the greatest is \<^verbatim>\<open>webx\<close>.
\<close>

theorem fresh_names_attribute_error_witness:
  "parse_pattern ''web[1:9]'' = Inr \<lparr>hostname = ''web'', range_start = ''1'', range_end = ''9''\<rparr>
   \<and> max_loop ''web1'' [''webx''] = ''webx''
   \<and> fresh_names ''web[1:9]'' [''web1'', ''webx''] 3 = Inl AttributeError"
proof -
  let ?d = "\<lparr>hostname = ''web'', range_start = ''1'', range_end = ''9''\<rparr>"
  have p: "parse_pattern ''web[1:9]'' = Inr ?d" by (simp add: eval_defs)
  have m: "max_loop ''web1'' [''webx''] = ''webx''" by simp
  have "\<not> (\<exists>g rest. max_loop ''web1'' [''webx''] = hostname ?d @ g @ rest \<and>
      length g = width ?d \<and> list_all is_digit g)"
    by (auto simp: width_def length_Suc_conv is_digit_def)
  from fresh_names_attribute_error [OF p this, of 3] p m show ?thesis by simp
qed

end
